theory Spec2Isabelle
  imports Complex_Main "HOL-Library.Multiset"
begin

section \<open>Session reconstruction of the \<^verbatim>\<open>/analytics\<close> route\<close>

text \<open>
  The development embeds the reconstruction core of the \<^verbatim>\<open>/analytics\<close> handler of the
  backend statistics router: \<^verbatim>\<open>buildVisitorId\<close>, the first pass (session marking), the
  second pass (dwell time per session), the overall aggregates and the per-page details.

  Conventions of the embedding:
  \<^item> a JavaScript \<^verbatim>\<open>Map\<close> is an association list in insertion order (\<^verbatim>\<open>Map.set\<close> on an existing
    key keeps its position, a new key goes to the end), since the handler iterates over
    \<^verbatim>\<open>sessionsMap.values()\<close>;
  \<^item> \<^verbatim>\<open>new Date(x).getTime()\<close> is an integer number of milliseconds: the rows carry the parsed
    time; an unparsable date (\<^verbatim>\<open>NaN\<close>) is outside the model;
  \<^item> a quotient of two integers is an exact rational; JavaScript returns the binary64 number
    closest to it (so \<^verbatim>\<open>Math.round(bounceRatioPage * 100)\<close> may differ by one from the exact
    rounding on a tie);
  \<^item> the MD5 hex digest of Node's \<^verbatim>\<open>crypto\<close> module is a parameter \<open>md5hex\<close>;
  \<^item> \<^verbatim>\<open>m.get(k) || d\<close> is a lookup with default \<open>d\<close>: the stored values (state objects,
    arrays, aggregates, counts from 1 on) are all truthy; the final \<^verbatim>\<open>|| 0\<close> on the five aggregates
    leaves every number as it is;
  \<^item> the handler throws nowhere between the queries, so the functions below are total and
    have no error value.
\<close>

subsection \<open>JavaScript values\<close>

datatype jsval = JNull | JNum int | JStr string

text \<open>Truthiness as tested by \<^verbatim>\<open>if (v)\<close>.\<close>

fun truthy :: "jsval \<Rightarrow> bool" where
  "truthy JNull = False"
| "truthy (JNum n) = (n \<noteq> 0)"
| "truthy (JStr s) = (s \<noteq> [])"

fun truthy_str :: "string option \<Rightarrow> bool" where
  "truthy_str None = False"
| "truthy_str (Some s) = (s \<noteq> [])"

text \<open>
  Decimal digits of a natural number, as \<^verbatim>\<open>String(n)\<close> and template literals print them.
  (For numbers of 22 digits or more the language prints an exponent; an integer id of the database stays
  far below.)
\<close>

fun show_nat :: "nat \<Rightarrow> string" where
  "show_nat n =
     (if n < 10 then [''0123456789'' ! n]
      else show_nat (n div 10) @ [''0123456789'' ! (n mod 10)])"

declare show_nat.simps [simp del]

definition show_int :: "int \<Rightarrow> string" where
  "show_int i = (if i < 0 then ''-'' @ show_nat (nat (- i)) else show_nat (nat i))"

fun String_js :: "jsval \<Rightarrow> string" where
  "String_js JNull = ''null''"
| "String_js (JNum n) = show_int n"
| "String_js (JStr s) = s"

fun String_str :: "string option \<Rightarrow> string" where
  "String_str None = ''null''"
| "String_str (Some s) = s"

subsection \<open>Insertion-ordered maps and sets\<close>

fun Map_get :: "('k \<times> 'v) list \<Rightarrow> 'k \<Rightarrow> 'v option" where
  "Map_get [] k = None"
| "Map_get ((k', v) # m) k = (if k' = k then Some v else Map_get m k)"

fun Map_set :: "'k \<Rightarrow> 'v \<Rightarrow> ('k \<times> 'v) list \<Rightarrow> ('k \<times> 'v) list" where
  "Map_set k v [] = [(k, v)]"
| "Map_set k v ((k', v') # m) = (if k' = k then (k, v) # m else (k', v') # Map_set k v m)"

definition Set_add :: "'a \<Rightarrow> 'a list \<Rightarrow> 'a list" where
  "Set_add x s = (if x \<in> set s then s else s @ [x])"

definition Set_of :: "'a list \<Rightarrow> 'a list" where
  "Set_of xs = fold Set_add xs []"

subsection \<open>\<^verbatim>\<open>Array.prototype.sort\<close> with a comparator\<close>

text \<open>
  The sort of the language is stable; for a consistent comparator its result is the stable
  insertion sort below.
\<close>

fun insort_cmp :: "('a \<Rightarrow> 'a \<Rightarrow> int) \<Rightarrow> 'a \<Rightarrow> 'a list \<Rightarrow> 'a list" where
  "insort_cmp cmp x [] = [x]"
| "insort_cmp cmp x (y # ys) = (if cmp x y \<le> 0 then x # y # ys else y # insort_cmp cmp x ys)"

definition sort_cmp :: "('a \<Rightarrow> 'a \<Rightarrow> int) \<Rightarrow> 'a list \<Rightarrow> 'a list" where
  "sort_cmp cmp xs = foldr (insort_cmp cmp) xs []"

subsection \<open>Rows of the activity log and visitor keys\<close>

text \<open>
  A row of \<^verbatim>\<open>viewRows\<close>, as the query on \<^verbatim>\<open>activity_logs\<close> returns it: \<open>user_id\<close> and
  \<open>resource_id\<close> are numbers (or strings) or null, \<open>ip_address\<close> and \<open>user_agent\<close> are
  strings or null. \<open>created_at\<close> holds \<^verbatim>\<open>new Date(row.created_at).getTime()\<close>.
  \<^verbatim>\<open>buildVisitorId\<close> tests each field with \<^verbatim>\<open>if (row.field)\<close> and takes the first 12
  characters of the hex digest with \<^verbatim>\<open>slice(0, 12)\<close>.
\<close>

record row =
  id_row :: int
  resource_id :: jsval
  user_id :: jsval
  ip_address :: "string option"
  user_agent :: "string option"
  created_at :: int

definition buildVisitorId :: "(string \<Rightarrow> string) \<Rightarrow> row \<Rightarrow> string" where
  "buildVisitorId md5hex r =
     (if truthy (user_id r) then String_js (user_id r)
      else if truthy_str (ip_address r) then String_str (ip_address r)
      else if truthy_str (user_agent r) then ''ua:'' @ take 12 (md5hex (String_str (user_agent r)))
      else ''unknown'')"

subsection \<open>First pass: session marking\<close>

text \<open>
  The loop over \<^verbatim>\<open>viewRows\<close>: \<open>next_state\<close> is the update of the visitor's state
  (\<^verbatim>\<open>lastTime\<close> is null before the visitor's first event), \<open>sessionId_of\<close> the template
  literal that joins the visitor id and the session index with a dash, \<open>pass1_step\<close> one
  iteration on the three tables, \<open>pass1\<close> the loop from empty tables.
\<close>

record visitor_state =
  lastTime :: "int option"
  sessionIndex :: nat

record event =
  resource_id :: jsval
  visitor_id :: string
  session_id :: string
  created_ms :: int

record pass1_tables =
  visitorState :: "(string \<times> visitor_state) list"
  sessionPageCounts :: "(string \<times> nat) list"
  events :: "event list"

definition next_state :: "visitor_state \<Rightarrow> int \<Rightarrow> visitor_state" where
  "next_state state createdMs =
     \<lparr>lastTime = Some createdMs,
      sessionIndex =
        (if (case lastTime state of None \<Rightarrow> True | Some l \<Rightarrow> createdMs - l > 30 * 60 * 1000)
         then sessionIndex state + 1 else sessionIndex state)\<rparr>"

definition sessionId_of :: "string \<Rightarrow> nat \<Rightarrow> string" where
  "sessionId_of visitorId idx = visitorId @ ''-'' @ show_nat idx"

definition pass1_step :: "(string \<Rightarrow> string) \<Rightarrow> row \<Rightarrow> pass1_tables \<Rightarrow> pass1_tables" where
  "pass1_step md5hex r t =
     (let visitorId = buildVisitorId md5hex r;
          createdMs = created_at r;
          state0 = (case Map_get (visitorState t) visitorId of
                      Some s \<Rightarrow> s
                    | None \<Rightarrow> \<lparr>lastTime = None, sessionIndex = 0\<rparr>);
          state = next_state state0 createdMs;
          sessionId = sessionId_of visitorId (sessionIndex state)
      in \<lparr>visitorState = Map_set visitorId state (visitorState t),
          sessionPageCounts =
            Map_set sessionId
              ((case Map_get (sessionPageCounts t) sessionId of Some c \<Rightarrow> c | None \<Rightarrow> 0) + 1)
              (sessionPageCounts t),
          events = events t @
            [\<lparr>resource_id = row.resource_id r, visitor_id = visitorId,
              session_id = sessionId, created_ms = createdMs\<rparr>]\<rparr>)"

definition pass1 :: "(string \<Rightarrow> string) \<Rightarrow> row list \<Rightarrow> pass1_tables" where
  "pass1 md5hex viewRows =
     fold (pass1_step md5hex) viewRows \<lparr>visitorState = [], sessionPageCounts = [], events = []\<rparr>"

subsection \<open>Second pass: dwell time per session\<close>

text \<open>
  \<open>sessionsMap\<close> groups the events by session id, each group in the order of the events.
  The loop over \<^verbatim>\<open>sessionsMap.values()\<close> sorts each group by time and pushes one metric per
  event, the groups one after the other (\<open>eventMetrics\<close>).
\<close>

record event_metric = event +
  duration_seconds :: int

definition sessionsMap_step :: "event \<Rightarrow> (string \<times> event list) list \<Rightarrow> (string \<times> event list) list" where
  "sessionsMap_step evt sm =
     Map_set (session_id evt)
       ((case Map_get sm (session_id evt) of Some arr \<Rightarrow> arr | None \<Rightarrow> []) @ [evt]) sm"

definition sessionsMap :: "event list \<Rightarrow> (string \<times> event list) list" where
  "sessionsMap evs = fold sessionsMap_step evs []"

definition by_created_ms :: "event \<Rightarrow> event \<Rightarrow> int" where
  "by_created_ms a b = created_ms a - created_ms b"

text \<open>
  \<^verbatim>\<open>Math.round(d / 1000)\<close> for an integer \<open>d\<close>: the quotient is rounded to the nearest
  integer, a tie going up.
\<close>

definition round_div_1000 :: "int \<Rightarrow> int" where
  "round_div_1000 d = (d + 500) div 1000"

definition with_duration :: "event \<Rightarrow> int \<Rightarrow> event_metric" where
  "with_duration current duration =
     \<lparr>resource_id = event.resource_id current, visitor_id = visitor_id current,
      session_id = session_id current, created_ms = created_ms current,
      duration_seconds = duration\<rparr>"

text \<open>The inner loop over one session: \<open>next\<close> is the element after \<open>current\<close>, if any.\<close>

fun session_metrics :: "event list \<Rightarrow> event_metric list" where
  "session_metrics [] = []"
| "session_metrics (current # rest) =
     with_duration current
       (case rest of
          [] \<Rightarrow> 30
        | next # _ \<Rightarrow> min 1800 (max 1 (round_div_1000 (created_ms next - created_ms current))))
     # session_metrics rest"

definition eventMetrics :: "event list \<Rightarrow> event_metric list" where
  "eventMetrics evs =
     concat (map (\<lambda>sessionEvents. session_metrics (sort_cmp by_created_ms sessionEvents))
                 (map snd (sessionsMap evs)))"

subsection \<open>Overall aggregates\<close>

text \<open>
  The constants computed from \<open>sessionPageCounts\<close> and \<open>eventMetrics\<close>, under the names
  they have in the handler, and the summary object built from them.
\<close>

record engagement_summary =
  total_sessions :: nat
  total_page_views :: nat
  unique_visitors :: nat
  avg_duration_seconds :: rat
  bounce_ratio :: rat

definition totalSessions :: "(string \<times> nat) list \<Rightarrow> nat" where
  "totalSessions spc = length spc"

definition totalPageViews :: "event_metric list \<Rightarrow> nat" where
  "totalPageViews ems = length ems"

definition uniqueVisitors :: "event_metric list \<Rightarrow> nat" where
  "uniqueVisitors ems = length (Set_of (map visitor_id ems))"

definition avgDurationSeconds :: "event_metric list \<Rightarrow> rat" where
  "avgDurationSeconds ems =
     (if totalPageViews ems > 0
      then of_int (fold (\<lambda>e sum. sum + duration_seconds e) ems 0) / of_nat (totalPageViews ems)
      else 0)"

definition singlePageSessions :: "(string \<times> nat) list \<Rightarrow> nat" where
  "singlePageSessions spc = length (filter (\<lambda>count. count = 1) (map snd spc))"

definition bounceRatio :: "(string \<times> nat) list \<Rightarrow> rat" where
  "bounceRatio spc =
     (if totalSessions spc > 0 then of_nat (singlePageSessions spc) / of_nat (totalSessions spc)
      else 0)"

definition engagementSummary :: "(string \<times> nat) list \<Rightarrow> event_metric list \<Rightarrow> engagement_summary" where
  "engagementSummary spc ems =
     \<lparr>total_sessions = totalSessions spc,
      total_page_views = totalPageViews ems,
      unique_visitors = uniqueVisitors ems,
      avg_duration_seconds = avgDurationSeconds ems,
      bounce_ratio = bounceRatio spc\<rparr>"

subsection \<open>Per-page aggregates and page details\<close>

text \<open>
  \<open>pageAgg\<close> is keyed by resource id; the field \<open>uniqueVisitors_agg\<close> is the
  \<^verbatim>\<open>uniqueVisitors\<close> set of the aggregate. \<open>page_detail_of\<close> is the function mapped over the
  catalog, \<open>compare_details\<close> the comparator of the sort, and \<open>pageDetails\<close> the chain of
  \<^verbatim>\<open>map\<close>, \<^verbatim>\<open>sort\<close> and \<^verbatim>\<open>slice(0, 20)\<close>. \<open>updated_at\<close> of a page holds
  \<^verbatim>\<open>new Date(p.updated_at).getTime()\<close>.
\<close>

record page_agg =
  views :: nat
  durationSum :: int
  uniqueVisitors_agg :: "string list"
  bounceHits :: nat

definition pageAgg_step ::
  "(string \<times> nat) list \<Rightarrow> event_metric \<Rightarrow> (jsval \<times> page_agg) list \<Rightarrow> (jsval \<times> page_agg) list" where
  "pageAgg_step spc evt pa =
     (let agg = (case Map_get pa (event.resource_id evt) of
                   Some a \<Rightarrow> a
                 | None \<Rightarrow> \<lparr>views = 0, durationSum = 0, uniqueVisitors_agg = [], bounceHits = 0\<rparr>)
      in Map_set (event.resource_id evt)
           \<lparr>views = views agg + 1,
            durationSum = durationSum agg + duration_seconds evt,
            uniqueVisitors_agg = Set_add (visitor_id evt) (uniqueVisitors_agg agg),
            bounceHits =
              (if (case Map_get spc (session_id evt) of Some c \<Rightarrow> c | None \<Rightarrow> 0) = 1
               then bounceHits agg + 1 else bounceHits agg)\<rparr>
           pa)"

definition pageAgg :: "(string \<times> nat) list \<Rightarrow> event_metric list \<Rightarrow> (jsval \<times> page_agg) list" where
  "pageAgg spc ems = fold (pageAgg_step spc) ems []"

record page =
  id_page :: jsval
  title :: string
  updated_at :: int

record page_detail =
  title :: string
  views :: nat
  unique_visitors :: nat
  avg_time :: rat
  bounce_rate :: int
  updated_at :: int

definition Math_round :: "rat \<Rightarrow> int" where
  "Math_round x = \<lfloor>x + 1 / 2\<rfloor>"

definition page_detail_of :: "(jsval \<times> page_agg) list \<Rightarrow> page \<Rightarrow> page_detail" where
  "page_detail_of pa p =
     (let agg = (case Map_get pa (id_page p) of
                   Some a \<Rightarrow> a
                 | None \<Rightarrow> \<lparr>page_agg.views = 0, durationSum = 0, uniqueVisitors_agg = [], bounceHits = 0\<rparr>);
          count = page_agg.views agg;
          avgDuration = (if count > 0 then of_int (durationSum agg) / of_nat count else 0);
          bounceRatioPage = (if count > 0 then of_nat (bounceHits agg) / of_nat count else 0)
      in \<lparr>title = page.title p,
          views = count,
          unique_visitors = length (uniqueVisitors_agg agg),
          avg_time = avgDuration,
          bounce_rate = Math_round (bounceRatioPage * 100),
          updated_at = page.updated_at p\<rparr>)"

definition compare_details :: "page_detail \<Rightarrow> page_detail \<Rightarrow> int" where
  "compare_details a b =
     (if views b \<noteq> views a then int (views b) - int (views a)
      else updated_at b - updated_at a)"

definition pageDetails :: "(jsval \<times> page_agg) list \<Rightarrow> page list \<Rightarrow> page_detail list" where
  "pageDetails pa pages = take 20 (sort_cmp compare_details (map (page_detail_of pa) pages))"

subsection \<open>The reconstruction as one call\<close>

text \<open>
  The whole computation from the rows and the catalog: the summary, the page details, and
  the two intermediate tables the properties speak about.
\<close>

record analytics =
  summary :: engagement_summary
  details :: "page_detail list"
  metrics :: "event_metric list"
  counts :: "(string \<times> nat) list"

definition reconstruct :: "(string \<Rightarrow> string) \<Rightarrow> row list \<Rightarrow> page list \<Rightarrow> analytics" where
  "reconstruct md5hex viewRows pages =
     (let t = pass1 md5hex viewRows;
          ems = eventMetrics (events t);
          pa = pageAgg (sessionPageCounts t) ems
      in \<lparr>summary = engagementSummary (sessionPageCounts t) ems,
          details = pageDetails pa pages,
          metrics = ems,
          counts = sessionPageCounts t\<rparr>)"

subsection \<open>Reference definitions\<close>

text \<open>
  Definitions that follow the wording of the specification, to compare the code with: the
  session indices of one visitor from the times of the events, the clamp of a value to a
  range, and the order of the page details.
\<close>

fun session_indices_from :: "int \<Rightarrow> nat \<Rightarrow> int list \<Rightarrow> nat list" where
  "session_indices_from prev idx [] = []"
| "session_indices_from prev idx (t # ts) =
     (if t - prev > 1800000 then Suc idx # session_indices_from t (Suc idx) ts
      else idx # session_indices_from t idx ts)"

fun session_indices :: "int list \<Rightarrow> nat list" where
  "session_indices [] = []"
| "session_indices (t # ts) = 1 # session_indices_from t 1 ts"

definition clamp :: "int \<Rightarrow> int \<Rightarrow> int \<Rightarrow> int" where
  "clamp lo hi x = (if x < lo then lo else if hi < x then hi else x)"

definition ranks_before :: "page_detail \<Rightarrow> page_detail \<Rightarrow> bool" where
  "ranks_before a b \<longleftrightarrow>
     views b < views a \<or> (views a = views b \<and> updated_at b \<le> updated_at a)"

subsection \<open>Auxiliary definitions\<close>

text \<open>
  The running state of a visitor as the first pass reads it, the session indices it assigns
  from a given state, and the invariant that ties the session page counts to the events.
\<close>

definition state_of :: "(string \<times> visitor_state) list \<Rightarrow> string \<Rightarrow> visitor_state" where
  "state_of vs v = (case Map_get vs v of Some s \<Rightarrow> s | None \<Rightarrow> \<lparr>lastTime = None, sessionIndex = 0\<rparr>)"

fun indices_from_state :: "visitor_state \<Rightarrow> int list \<Rightarrow> nat list" where
  "indices_from_state st [] = []"
| "indices_from_state st (t # ts) =
     sessionIndex (next_state st t) # indices_from_state (next_state st t) ts"

definition counts_ok :: "pass1_tables \<Rightarrow> bool" where
  "counts_ok t \<longleftrightarrow>
     distinct (map fst (sessionPageCounts t)) \<and>
     (\<forall>s. Map_get (sessionPageCounts t) s =
        (if s \<in> session_id ` set (events t)
         then Some (length (filter (\<lambda>e. session_id e = s) (events t))) else None))"

subsection \<open>Sample inputs\<close>

text \<open>
  Concrete rows and catalogs for the evaluated examples; \<open>const_digest\<close> stands for the
  digest function there.
\<close>

definition const_digest :: "string \<Rightarrow> string" where
  "const_digest s = ''d41d8cd98f00b204e9800998ecf8427e''"

definition view_row :: "jsval \<Rightarrow> jsval \<Rightarrow> int \<Rightarrow> row" where
  "view_row u p t =
     \<lparr>id_row = 0, row.resource_id = p, user_id = u, ip_address = None, user_agent = None,
      created_at = t\<rparr>"

definition anonymous_row :: "jsval \<Rightarrow> string option \<Rightarrow> string option \<Rightarrow> row" where
  "anonymous_row u ip ua =
     \<lparr>id_row = 0, row.resource_id = JNum 1, user_id = u, ip_address = ip, user_agent = ua,
      created_at = 0\<rparr>"

definition scenario :: "row list" where
  "scenario =
     [view_row (JStr ''u1'') (JStr ''p1'') 0,
      view_row (JStr ''u2'') (JStr ''p2'') 50000,
      view_row (JStr ''u1'') (JStr ''p1'') 100000,
      view_row (JStr ''u1'') (JStr ''p1'') 2000000,
      view_row (JStr ''u1'') (JStr ''p1'') 2100000]"

definition sample_page :: page where
  "sample_page = \<lparr>id_page = JNum 1, title = ''Home'', updated_at = 1000\<rparr>"

definition numbered_page :: "int \<Rightarrow> page" where
  "numbered_page i = \<lparr>id_page = JNum i, title = show_int i, updated_at = i\<rparr>"

definition catalog21 :: "page list" where
  "catalog21 = map numbered_page [1, 2, 3, 4, 5, 6, 7, 8, 9, 10, 11, 12, 13, 14, 15, 16, 17,
     18, 19, 20, 21]"

definition sample_catalog :: "page list" where
  "sample_catalog =
     [\<lparr>id_page = JStr ''p2'', title = ''B'', updated_at = 5\<rparr>,
      \<lparr>id_page = JStr ''zz'', title = ''Old'', updated_at = 1\<rparr>,
      \<lparr>id_page = JStr ''yy'', title = ''New'', updated_at = 9\<rparr>,
      \<lparr>id_page = JStr ''p1'', title = ''A'', updated_at = 2\<rparr>]"

section \<open>Verification\<close>

subsection \<open>Maps and sorting\<close>

lemma Map_get_None_iff: "Map_get m k = None \<longleftrightarrow> k \<notin> fst ` set m"
  by (induction m) (auto split: if_splits)

lemma Map_get_Map_set: "Map_get (Map_set k v m) k' = (if k' = k then Some v else Map_get m k')"
  by (induction m) auto

lemma keys_Map_set:
  "map fst (Map_set k v m) = (if k \<in> fst ` set m then map fst m else map fst m @ [k])"
  by (induction m) (force split: if_splits)+

lemma distinct_Map_set: "distinct (map fst m) \<Longrightarrow> distinct (map fst (Map_set k v m))"
  by (simp add: keys_Map_set)

lemma Map_get_in_set: "distinct (map fst m) \<Longrightarrow> (k, v) \<in> set m \<longleftrightarrow> Map_get m k = Some v"
  by (induction m) (force split: if_splits)+

lemma mset_insort_cmp: "mset (insort_cmp cmp x ys) = add_mset x (mset ys)"
  by (induction ys) auto

lemma mset_sort_cmp: "mset (sort_cmp cmp xs) = mset xs"
  by (induction xs) (auto simp: sort_cmp_def mset_insort_cmp)

lemma set_sort_cmp: "set (sort_cmp cmp xs) = set xs"
  by (metis mset_sort_cmp set_mset_mset)

lemma length_sort_cmp: "length (sort_cmp cmp xs) = length xs"
  by (metis mset_sort_cmp size_mset)

lemma set_insort_cmp: "set (insort_cmp cmp x ys) = insert x (set ys)"
  by (metis mset_insort_cmp set_mset_mset set_mset_add_mset_insert)

lemma sorted_insort_cmp:
  assumes total: "\<And>a b. cmp a b \<le> 0 \<or> cmp b a \<le> 0"
    and trans: "\<And>a b c. cmp a b \<le> 0 \<Longrightarrow> cmp b c \<le> 0 \<Longrightarrow> cmp a c \<le> 0"
  shows "sorted_wrt (\<lambda>a b. cmp a b \<le> 0) ys \<Longrightarrow> sorted_wrt (\<lambda>a b. cmp a b \<le> 0) (insort_cmp cmp x ys)"
proof (induction ys)
  case Nil
  then show ?case by simp
next
  case (Cons y ys)
  show ?case
  proof (cases "cmp x y \<le> 0")
    case True
    with Cons.prems trans show ?thesis by auto
  next
    case False
    with total have "cmp y x \<le> 0" by blast
    with False Cons show ?thesis by (auto simp: set_insort_cmp)
  qed
qed

lemma sorted_sort_cmp:
  assumes total: "\<And>a b. cmp a b \<le> 0 \<or> cmp b a \<le> 0"
    and trans: "\<And>a b c. cmp a b \<le> 0 \<Longrightarrow> cmp b c \<le> 0 \<Longrightarrow> cmp a c \<le> 0"
  shows "sorted_wrt (\<lambda>a b. cmp a b \<le> 0) (sort_cmp cmp xs)"
proof (induction xs)
  case Nil
  then show ?case by (simp add: sort_cmp_def)
next
  case (Cons x xs)
  have "sort_cmp cmp (x # xs) = insort_cmp cmp x (sort_cmp cmp xs)"
    by (simp add: sort_cmp_def)
  with Cons sorted_insort_cmp [of cmp, OF total trans] show ?case by simp
qed

subsection \<open>First pass: session indices\<close>

lemma indices_from_state_Some:
  "indices_from_state \<lparr>lastTime = Some p, sessionIndex = k\<rparr> ts = session_indices_from p k ts"
  by (induction ts arbitrary: p k) (simp_all add: next_state_def)

lemma indices_from_state_init:
  "indices_from_state \<lparr>lastTime = None, sessionIndex = 0\<rparr> ts = session_indices ts"
  by (cases ts) (simp_all add: next_state_def indices_from_state_Some)

lemma events_pass1_step:
  "events (pass1_step md5hex r t) = events t @
     [\<lparr>resource_id = row.resource_id r, visitor_id = buildVisitorId md5hex r,
       session_id = sessionId_of (buildVisitorId md5hex r)
         (sessionIndex (next_state (state_of (visitorState t) (buildVisitorId md5hex r)) (created_at r))),
       created_ms = created_at r\<rparr>]"
  by (simp add: pass1_step_def Let_def state_of_def)

lemma state_of_pass1_step:
  "state_of (visitorState (pass1_step md5hex r t)) v =
     (if v = buildVisitorId md5hex r
      then next_state (state_of (visitorState t) v) (created_at r)
      else state_of (visitorState t) v)"
  by (simp add: pass1_step_def Let_def state_of_def Map_get_Map_set)

lemma session_ids_fold_pass1:
  "map session_id (filter (\<lambda>e. visitor_id e = v) (events (fold (pass1_step md5hex) rows t))) =
   map session_id (filter (\<lambda>e. visitor_id e = v) (events t)) @
   map (sessionId_of v)
     (indices_from_state (state_of (visitorState t) v)
        (map created_at (filter (\<lambda>r. buildVisitorId md5hex r = v) rows)))"
proof (induction rows arbitrary: t)
  case Nil
  then show ?case by simp
next
  case (Cons r rows)
  show ?case
    by (simp add: Cons.IH events_pass1_step state_of_pass1_step)
qed

lemma times_fold_pass1:
  "map created_ms (events (fold (pass1_step md5hex) rows t)) =
   map created_ms (events t) @ map created_at rows"
  by (induction rows arbitrary: t) (simp_all add: events_pass1_step)

lemma length_events_pass1: "length (events (pass1 md5hex rows)) = length rows"
  using arg_cong [OF times_fold_pass1, of length md5hex rows "\<lparr>visitorState = [], sessionPageCounts = [], events = []\<rparr>"]
  by (simp add: pass1_def)

lemma session_ids_pass1:
  "map session_id (filter (\<lambda>e. visitor_id e = v) (events (pass1 md5hex viewRows))) =
   map (sessionId_of v)
     (session_indices (map created_at (filter (\<lambda>r. buildVisitorId md5hex r = v) viewRows)))"
  by (simp add: pass1_def session_ids_fold_pass1 state_of_def indices_from_state_init)

lemma session_indices_first: "ts \<noteq> [] \<Longrightarrow> session_indices ts ! 0 = 1"
  by (cases ts) simp_all

lemma length_session_indices_from: "length (session_indices_from p k ts) = length ts"
  by (induction ts arbitrary: p k) simp_all

lemma session_indices_from_step:
  "i < length ts \<Longrightarrow>
   session_indices_from p k ts ! i =
     (if i = 0 then k else session_indices_from p k ts ! (i - 1)) +
     (if ts ! i - (if i = 0 then p else ts ! (i - 1)) > 1800000 then 1 else 0)"
proof (induction ts arbitrary: p k i)
  case Nil
  then show ?case by simp
next
  case (Cons t ts)
  show ?case
  proof (cases i)
    case 0
    then show ?thesis by simp
  next
    case (Suc j)
    with Cons.prems have j: "j < length ts" by simp
    show ?thesis
      using Cons.IH [OF j, of t "Suc k"] Cons.IH [OF j, of t k] Suc
      by (cases j) (simp_all)
  qed
qed

lemma session_indices_step:
  assumes "Suc i < length ts"
  shows "session_indices ts ! Suc i =
           session_indices ts ! i + (if ts ! Suc i - ts ! i > 1800000 then 1 else 0)"
proof (cases ts)
  case Nil
  with assms show ?thesis by simp
next
  case (Cons t ts')
  with assms have "i < length ts'" by simp
  from session_indices_from_step [OF this, of t 1] Cons show ?thesis
    by (cases i) simp_all
qed

subsection \<open>Session ids are unambiguous\<close>

lemma digit_inject:
  assumes "a < 10" "b < 10" "''0123456789'' ! a = ''0123456789'' ! b"
  shows "a = b"
proof -
  have d: "distinct ''0123456789''" by simp
  have l: "length ''0123456789'' = 10" by simp
  from assms nth_eq_iff_index_eq [OF d, of a b] l show ?thesis by simp
qed

lemma digit_not_dash: "a < 10 \<Longrightarrow> ''0123456789'' ! a \<noteq> CHR ''-''"
proof -
  assume "a < 10"
  then have "a < length ''0123456789''"
    by simp
  then have "''0123456789'' ! a \<in> set ''0123456789''"
    by (rule nth_mem)
  then show ?thesis by auto
qed

lemma show_nat_not_Nil: "show_nat n \<noteq> []"
  by (subst show_nat.simps) simp

lemma show_nat_no_dash: "CHR ''-'' \<notin> set (show_nat n)"
proof (induction n rule: show_nat.induct)
  case (1 n)
  show ?case
  proof (cases "n < 10")
    case True
    with digit_not_dash [of n] show ?thesis
      by (subst show_nat.simps) auto
  next
    case False
    with 1 digit_not_dash [of "n mod 10"] show ?thesis
      by (subst show_nat.simps) auto
  qed
qed

lemma show_nat_inject: "show_nat n = show_nat m \<Longrightarrow> n = m"
proof (induction n arbitrary: m rule: show_nat.induct)
  case (1 n)
  note eq = \<open>show_nat n = show_nat m\<close>
  show ?case
  proof (cases "n < 10")
    case small_n: True
    show ?thesis
    proof (cases "m < 10")
      case True
      with small_n eq digit_inject [of n m] show ?thesis
        by (simp add: show_nat.simps [of n] show_nat.simps [of m])
    next
      case False
      with small_n eq show_nat_not_Nil [of "m div 10"] show ?thesis
        by (simp add: show_nat.simps [of n] show_nat.simps [of m])
    qed
  next
    case big_n: False
    show ?thesis
    proof (cases "m < 10")
      case True
      with big_n eq show_nat_not_Nil [of "n div 10"] show ?thesis
        by (simp add: show_nat.simps [of n] show_nat.simps [of m])
    next
      case False
      with big_n eq have a: "show_nat (n div 10) = show_nat (m div 10)"
        and b: "''0123456789'' ! (n mod 10) = ''0123456789'' ! (m mod 10)"
        by (simp_all add: show_nat.simps [of n] show_nat.simps [of m])
      from "1.IH" [OF big_n a] have "n div 10 = m div 10" .
      moreover from digit_inject [OF _ _ b] have "n mod 10 = m mod 10" by simp
      ultimately show ?thesis
        by (metis div_mult_mod_eq)
    qed
  qed
qed

lemma takeWhile_until:
  "c \<notin> set xs \<Longrightarrow> takeWhile (\<lambda>x. x \<noteq> c) (xs @ c # ys) = xs"
  by (induction xs) auto

lemma sessionId_of_inject:
  assumes "sessionId_of v k = sessionId_of v' k'"
  shows "v = v' \<and> k = k'"
proof -
  have tw: "takeWhile (\<lambda>c. c \<noteq> CHR ''-'') (rev (sessionId_of u i)) = rev (show_nat i)" for u i
    using show_nat_no_dash [of i]
    by (simp add: sessionId_of_def takeWhile_until)
  from assms have "takeWhile (\<lambda>c. c \<noteq> CHR ''-'') (rev (sessionId_of v k)) =
                   takeWhile (\<lambda>c. c \<noteq> CHR ''-'') (rev (sessionId_of v' k'))"
    by simp
  then have "rev (show_nat k) = rev (show_nat k')"
    by (simp only: tw)
  then have k: "k = k'"
    by (simp add: show_nat_inject)
  with assms show ?thesis
    by (simp add: sessionId_of_def)
qed

subsection \<open>Second pass: the metrics of one session\<close>

lemma round_div_1000_Math_round: "round_div_1000 d = Math_round (of_int d / 1000)"
proof -
  have "(of_int d :: rat) / 1000 + 1 / 2 = of_int (d + 500) / of_int 1000"
    by (simp add: field_simps)
  then have "\<lfloor>(of_int d :: rat) / 1000 + 1 / 2\<rfloor> = (d + 500) div 1000"
    by (simp only: floor_divide_of_int_eq)
  then show ?thesis by (simp add: round_div_1000_def Math_round_def)
qed

lemma min_max_clamp: "min 1800 (max 1 x) = clamp 1 1800 x"
  by (simp add: clamp_def)

lemma Map_get_sessionsMap_step:
  "Map_get (sessionsMap_step e sm) s =
     (if s = session_id e
      then Some ((case Map_get sm s of Some arr \<Rightarrow> arr | None \<Rightarrow> []) @ [e])
      else Map_get sm s)"
  by (simp add: sessionsMap_step_def Map_get_Map_set)

lemma distinct_fold_sessionsMap:
  "distinct (map fst sm) \<Longrightarrow> distinct (map fst (fold sessionsMap_step evs sm))"
  by (induction evs arbitrary: sm) (simp_all add: sessionsMap_step_def distinct_Map_set)

lemma Map_get_fold_sessionsMap:
  "Map_get (fold sessionsMap_step evs sm) s =
     (if s \<in> session_id ` set evs \<or> Map_get sm s \<noteq> None
      then Some ((case Map_get sm s of Some arr \<Rightarrow> arr | None \<Rightarrow> []) @
                 filter (\<lambda>e. session_id e = s) evs)
      else None)"
proof (induction evs arbitrary: sm)
  case Nil
  then show ?case by (auto split: option.splits)
next
  case (Cons e evs)
  show ?case
    by (auto simp: Cons.IH Map_get_sessionsMap_step split: option.splits)
qed

lemma Map_get_sessionsMap:
  "Map_get (sessionsMap evs) s =
     (if s \<in> session_id ` set evs then Some (filter (\<lambda>e. session_id e = s) evs) else None)"
  by (simp add: sessionsMap_def Map_get_fold_sessionsMap)

lemma distinct_sessionsMap: "distinct (map fst (sessionsMap evs))"
  by (simp add: sessionsMap_def distinct_fold_sessionsMap)

lemma sessionsMap_entry:
  assumes "(k, arr) \<in> set (sessionsMap evs)"
  shows "arr = filter (\<lambda>e. session_id e = k) evs"
proof -
  from assms have "Map_get (sessionsMap evs) k = Some arr"
    by (simp add: Map_get_in_set [OF distinct_sessionsMap])
  then show ?thesis by (simp add: Map_get_sessionsMap split: if_splits)
qed

lemma concat_select:
  "distinct (map fst al) \<Longrightarrow>
   concat (map (\<lambda>p. if fst p = s then h (snd p) else []) al) =
     (case Map_get al s of Some a \<Rightarrow> h a | None \<Rightarrow> [])"
proof (induction al)
  case Nil
  then show ?case by simp
next
  case (Cons p al)
  obtain k a where p: "p = (k, a)" by (cases p)
  show ?case
  proof (cases "k = s")
    case True
    with Cons.prems p have "s \<notin> fst ` set al" by simp
    then have "concat (map (\<lambda>p. if fst p = s then h (snd p) else []) al) = []"
      by (induction al) auto
    with True p show ?thesis by simp
  next
    case False
    with Cons p show ?thesis by simp
  qed
qed

lemma session_id_session_metrics: "map session_id (session_metrics xs) = map session_id xs"
  by (induction xs) (simp_all add: with_duration_def)

lemma length_session_metrics: "length (session_metrics xs) = length xs"
  by (induction xs) simp_all

lemma filter_session_metrics_sort:
  assumes "\<forall>e\<in>set arr. session_id e = k"
  shows "filter (\<lambda>m. session_id m = s) (session_metrics (sort_cmp by_created_ms arr)) =
         (if k = s then session_metrics (sort_cmp by_created_ms arr) else [])"
proof -
  let ?ms = "session_metrics (sort_cmp by_created_ms arr)"
  have "set (map session_id ?ms) = session_id ` set arr"
    by (simp only: session_id_session_metrics set_map set_sort_cmp)
  with assms have "\<forall>m\<in>set ?ms. session_id m = k" by auto
  then show ?thesis by (auto simp: filter_empty_conv)
qed

lemma filter_eventMetrics:
  "filter (\<lambda>m. session_id m = s) (eventMetrics evs) =
   session_metrics (sort_cmp by_created_ms (filter (\<lambda>e. session_id e = s) evs))"
proof -
  let ?g = "\<lambda>arr. session_metrics (sort_cmp by_created_ms arr)"
  have "filter (\<lambda>m. session_id m = s) (eventMetrics evs) =
        concat (map (\<lambda>p. filter (\<lambda>m. session_id m = s) (?g (snd p))) (sessionsMap evs))"
    by (simp add: eventMetrics_def filter_concat comp_def)
  also have "\<dots> = concat (map (\<lambda>p. if fst p = s then ?g (snd p) else []) (sessionsMap evs))"
  proof -
    have "filter (\<lambda>m. session_id m = s) (?g (snd p)) = (if fst p = s then ?g (snd p) else [])"
      if "p \<in> set (sessionsMap evs)" for p
    proof -
      from that have "snd p = filter (\<lambda>e. session_id e = fst p) evs"
        using sessionsMap_entry [of "fst p" "snd p" evs] by simp
      then have "set (snd p) = {e \<in> set evs. session_id e = fst p}"
        by (simp only: set_filter)
      then have "\<forall>e\<in>set (snd p). session_id e = fst p"
        by simp
      then show ?thesis by (rule filter_session_metrics_sort)
    qed
    then show ?thesis by (simp cong: map_cong)
  qed
  also have "\<dots> = (case Map_get (sessionsMap evs) s of Some a \<Rightarrow> ?g a | None \<Rightarrow> [])"
    by (rule concat_select [OF distinct_sessionsMap])
  also have "\<dots> = ?g (filter (\<lambda>e. session_id e = s) evs)"
  proof (cases "s \<in> session_id ` set evs")
    case True
    then show ?thesis by (simp add: Map_get_sessionsMap)
  next
    case False
    then have "filter (\<lambda>e. session_id e = s) evs = []"
      by (auto simp: filter_empty_conv)
    with False show ?thesis by (simp add: Map_get_sessionsMap sort_cmp_def)
  qed
  finally show ?thesis .
qed

lemma session_metrics_nth:
  "i < length xs \<Longrightarrow>
   session_metrics xs ! i =
     with_duration (xs ! i)
       (if Suc i < length xs
        then min 1800 (max 1 (round_div_1000 (created_ms (xs ! Suc i) - created_ms (xs ! i))))
        else 30)"
proof (induction xs arbitrary: i)
  case Nil
  then show ?case by simp
next
  case (Cons x xs)
  show ?case
  proof (cases i)
    case 0
    then show ?thesis by (cases xs) simp_all
  next
    case (Suc j)
    with Cons show ?thesis by simp
  qed
qed

lemma by_created_ms_sorted:
  "sorted_wrt (\<lambda>a b. created_ms a \<le> created_ms b) (sort_cmp by_created_ms xs)"
proof -
  have "sorted_wrt (\<lambda>a b. by_created_ms a b \<le> 0) (sort_cmp by_created_ms xs)"
    by (rule sorted_sort_cmp) (auto simp: by_created_ms_def)
  then show ?thesis by (simp add: by_created_ms_def)
qed

text \<open>
  Claim C2 (duration computation). Fix a session id \<open>s\<close> and let \<open>grp\<close> be the events of that
  session sorted by time as the second pass sorts them (a permutation of the session's events,
  ascending in \<open>created_ms\<close>). The metrics emitted for \<open>s\<close> are one per event of \<open>grp\<close>, in
  that order; the event at position \<open>i\<close> gets the gap to its successor in seconds, rounded and
  clamped to the range from 1 to 1800, when it has a successor, and 30 when it is the last of
  its session.
\<close>

theorem duration_per_session:
  "let grp = sort_cmp by_created_ms (filter (\<lambda>e. session_id e = s) evs);
       ms = filter (\<lambda>m. session_id m = s) (eventMetrics evs)
   in mset grp = mset (filter (\<lambda>e. session_id e = s) evs) \<and>
      sorted_wrt (\<lambda>a b. created_ms a \<le> created_ms b) grp \<and>
      length ms = length grp \<and>
      (\<forall>i<length grp.
         ms ! i =
           with_duration (grp ! i)
             (if Suc i < length grp
              then clamp 1 1800
                     (Math_round (of_int (created_ms (grp ! Suc i) - created_ms (grp ! i)) / 1000))
              else 30))"
  by (simp add: Let_def filter_eventMetrics mset_sort_cmp by_created_ms_sorted
      length_session_metrics session_metrics_nth min_max_clamp round_div_1000_Math_round
      del: of_int_diff)

text \<open>
  A gap of 5000 seconds gives 1800, a gap of 0 seconds gives 1, the last event gives 30.
\<close>

theorem duration_per_session_witness:
  "(let ms = filter (\<lambda>m. session_id m = ''7-1'')
              (eventMetrics (events (pass1 const_digest
                 [view_row (JNum 7) (JNum 1) 5000000, view_row (JNum 7) (JNum 1) 0])))
    in length ms = 2 \<and> created_ms (ms ! 0) = 0 \<and> duration_seconds (ms ! 0) = 1800 \<and>
       duration_seconds (ms ! 1) = 30) \<and>
   (let ms = filter (\<lambda>m. session_id m = ''7-1'')
              (eventMetrics (events (pass1 const_digest
                 [view_row (JNum 7) (JNum 1) 0, view_row (JNum 7) (JNum 1) 0])))
    in length ms = 2 \<and> duration_seconds (ms ! 0) = 1 \<and> duration_seconds (ms ! 1) = 30)"
proof -
  let ?e1 = "events (pass1 const_digest [view_row (JNum 7) (JNum 1) 5000000, view_row (JNum 7) (JNum 1) 0])"
  let ?e2 = "events (pass1 const_digest [view_row (JNum 7) (JNum 1) 0, view_row (JNum 7) (JNum 1) 0])"
  have g1: "sort_cmp by_created_ms (filter (\<lambda>e. session_id e = ''7-1'') ?e1) =
            [\<lparr>resource_id = JNum 1, visitor_id = ''7'', session_id = ''7-1'', created_ms = 0\<rparr>,
             \<lparr>resource_id = JNum 1, visitor_id = ''7'', session_id = ''7-1'', created_ms = 5000000\<rparr>]"
    by code_simp
  have g2: "sort_cmp by_created_ms (filter (\<lambda>e. session_id e = ''7-1'') ?e2) =
            [\<lparr>resource_id = JNum 1, visitor_id = ''7'', session_id = ''7-1'', created_ms = 0\<rparr>,
             \<lparr>resource_id = JNum 1, visitor_id = ''7'', session_id = ''7-1'', created_ms = 0\<rparr>]"
    by code_simp
  have two: "(\<forall>i<Suc (Suc 0). P i) \<longleftrightarrow> P 0 \<and> P (Suc 0)" for P
    by (auto simp: less_Suc_eq)
  have r1: "Math_round 5000 = 5000" "Math_round 0 = 0"
    by (simp_all add: Math_round_def floor_eq_iff)
  from duration_per_session [of "''7-1''" ?e1] duration_per_session [of "''7-1''" ?e2]
  show ?thesis
    by (simp add: Let_def g1 g2 two r1 clamp_def with_duration_def)
qed

subsection \<open>Session splitting at the idle gap\<close>

lemma times_filter_fold_pass1:
  "map created_ms (filter (\<lambda>e. visitor_id e = v) (events (fold (pass1_step md5hex) rows t))) =
   map created_ms (filter (\<lambda>e. visitor_id e = v) (events t)) @
   map created_at (filter (\<lambda>r. buildVisitorId md5hex r = v) rows)"
  by (induction rows arbitrary: t) (simp_all add: events_pass1_step)

lemma times_filter_pass1:
  "map created_ms (filter (\<lambda>e. visitor_id e = v) (events (pass1 md5hex rows))) =
   map created_at (filter (\<lambda>r. buildVisitorId md5hex r = v) rows)"
  by (simp add: pass1_def times_filter_fold_pass1)

lemma length_session_indices: "length (session_indices ts) = length ts"
  by (cases ts) (simp_all add: length_session_indices_from)

text \<open>
  Claim C1 (session splitting boundary). Take the events of one visitor \<open>v\<close> in the order
  in which the first pass processes them. Their session ids are \<open>v-k\<close> for the session
  indices \<open>k\<close> given by \<open>session_indices\<close> on their times: the first event gets index 1, and
  each later event gets the index of the previous event of that visitor, plus one exactly when
  its time exceeds the previous time by more than 1800000 ms. Two events of the visitor have
  the same session id exactly when they have the same index. This holds for every input,
  whether or not the visitor's events are interleaved with those of other visitors.
\<close>

theorem session_split_boundary:
  "let es = filter (\<lambda>e. visitor_id e = v) (events (pass1 md5hex viewRows));
       ks = session_indices (map created_ms es)
   in map session_id es = map (sessionId_of v) ks \<and>
      (\<forall>i j. i < length es \<and> j < length es \<longrightarrow>
         (session_id (es ! i) = session_id (es ! j) \<longleftrightarrow> ks ! i = ks ! j)) \<and>
      (es \<noteq> [] \<longrightarrow> ks ! 0 = 1) \<and>
      (\<forall>i. Suc i < length es \<longrightarrow>
         ks ! Suc i =
           ks ! i + (if created_ms (es ! Suc i) - created_ms (es ! i) > 1800000 then 1 else 0))"
proof -
  let ?es = "filter (\<lambda>e. visitor_id e = v) (events (pass1 md5hex viewRows))"
  let ?ts = "map created_ms ?es"
  have a: "map session_id ?es = map (sessionId_of v) (session_indices ?ts)"
    by (simp only: times_filter_pass1 session_ids_pass1)
  have b: "?es \<noteq> [] \<longrightarrow> session_indices ?ts ! 0 = 1"
    by (simp add: session_indices_first)
  have c: "session_indices ?ts ! Suc i =
             session_indices ?ts ! i +
             (if created_ms (?es ! Suc i) - created_ms (?es ! i) > 1800000 then 1 else 0)"
    if "Suc i < length ?es" for i
  proof -
    from that have "Suc i < length ?ts" by simp
    from session_indices_step [OF this] that show ?thesis by simp
  qed
  have len: "length (session_indices ?ts) = length ?es"
    by (simp add: length_session_indices)
  have d: "session_id (?es ! i) = session_id (?es ! j) \<longleftrightarrow>
           session_indices ?ts ! i = session_indices ?ts ! j"
    if "i < length ?es \<and> j < length ?es" for i j
  proof -
    from that len have "map session_id ?es ! i = map (sessionId_of v) (session_indices ?ts) ! i"
      and "map session_id ?es ! j = map (sessionId_of v) (session_indices ?ts) ! j"
      by (simp_all only: a)
    with that len have e1: "session_id (?es ! i) = sessionId_of v (session_indices ?ts ! i)"
      and e2: "session_id (?es ! j) = sessionId_of v (session_indices ?ts ! j)"
      by simp_all
    show ?thesis
    proof
      assume "session_id (?es ! i) = session_id (?es ! j)"
      with e1 e2
      have "sessionId_of v (session_indices ?ts ! i) = sessionId_of v (session_indices ?ts ! j)"
        by simp
      then show "session_indices ?ts ! i = session_indices ?ts ! j"
        by (rule sessionId_of_inject [THEN conjunct2])
    next
      assume "session_indices ?ts ! i = session_indices ?ts ! j"
      with e1 e2 show "session_id (?es ! i) = session_id (?es ! j)"
        by simp
    qed
  qed
  show ?thesis
    unfolding Let_def
  proof (intro conjI allI impI)
    show "map session_id ?es = map (sessionId_of v) (session_indices ?ts)"
      by (rule a)
  next
    fix i j
    assume "i < length ?es \<and> j < length ?es"
    then show "(session_id (?es ! i) = session_id (?es ! j)) =
               (session_indices ?ts ! i = session_indices ?ts ! j)"
      by (rule d)
  next
    assume "?es \<noteq> []"
    with b show "session_indices ?ts ! 0 = 1"
      by blast
  next
    fix i
    assume "Suc i < length ?es"
    then show "session_indices ?ts ! Suc i =
                 session_indices ?ts ! i +
                 (if created_ms (?es ! Suc i) - created_ms (?es ! i) > 1800000 then 1 else 0)"
      by (rule c)
  qed
qed

text \<open>
  At the boundary: two events 1801 seconds apart are in sessions 1 and 2, two events
  1800 seconds apart are both in session 1.
\<close>

theorem session_split_boundary_witness:
  "map session_id
     (events (pass1 const_digest [view_row (JNum 7) (JNum 1) 0, view_row (JNum 7) (JNum 1) 1801000])) =
     [''7-1'', ''7-2''] \<and>
   map session_id
     (events (pass1 const_digest [view_row (JNum 7) (JNum 1) 0, view_row (JNum 7) (JNum 1) 1800000])) =
     [''7-1'', ''7-1'']"
proof -
  let ?r1 = "[view_row (JNum 7) (JNum 1) 0, view_row (JNum 7) (JNum 1) 1801000]"
  let ?r2 = "[view_row (JNum 7) (JNum 1) 0, view_row (JNum 7) (JNum 1) 1800000]"
  have v1: "map visitor_id (events (pass1 const_digest ?r1)) = [''7'', ''7'']"
    by code_simp
  have t1: "map created_ms (events (pass1 const_digest ?r1)) = [0, 1801000]"
    by code_simp
  have v2: "map visitor_id (events (pass1 const_digest ?r2)) = [''7'', ''7'']"
    by code_simp
  have t2: "map created_ms (events (pass1 const_digest ?r2)) = [0, 1800000]"
    by code_simp
  have all: "map f xs = [a, a] \<Longrightarrow> filter (\<lambda>e. f e = a) xs = xs" for f :: "event \<Rightarrow> string" and xs a
    by (cases xs; cases "tl xs") auto
  have k1: "sessionId_of ''7'' (Suc 0) = ''7-1''" "sessionId_of ''7'' (Suc (Suc 0)) = ''7-2''"
    by code_simp+
  from session_split_boundary [of "''7''" const_digest ?r1]
    session_split_boundary [of "''7''" const_digest ?r2]
  show ?thesis
    by (simp add: Let_def all [OF v1] all [OF v2] t1 t2 k1)
qed

subsection \<open>The end-to-end scenario and the visitor keys\<close>

text \<open>
  Claim C4 (end-to-end scenario). Four events of visitor u1 on page p1 at 0 s, 100 s, 2000 s
  and 2100 s, interleaved in time order with one event of visitor u2 on page p2 at 50 s, give
  3 sessions, 5 page views, 2 unique visitors, 1 single-page session and a bounce ratio
  of 1/3, for every page catalog and every digest function.
\<close>

theorem end_to_end_scenario:
  "let r = reconstruct md5hex scenario pages
   in total_sessions (summary r) = 3 \<and>
      total_page_views (summary r) = 5 \<and>
      engagement_summary.unique_visitors (summary r) = 2 \<and>
      singlePageSessions (counts r) = 1 \<and>
      bounce_ratio (summary r) = 1 / 3"
proof -
  have c: "sessionPageCounts (pass1 md5hex scenario) = [(''u1-1'', 2), (''u2-1'', 1), (''u1-2'', 2)]"
    by code_simp
  have v: "map visitor_id (eventMetrics (events (pass1 md5hex scenario))) =
             [''u1'', ''u1'', ''u2'', ''u1'', ''u1'']"
    by code_simp
  have u: "length (Set_of [''u1'', ''u1'', ''u2'', ''u1'', ''u1'']) = 2"
    by code_simp
  from arg_cong [OF v, of length] have n: "length (eventMetrics (events (pass1 md5hex scenario))) = 5"
    by simp
  show ?thesis
    by (simp add: Let_def reconstruct_def engagementSummary_def totalSessions_def totalPageViews_def
        uniqueVisitors_def singlePageSessions_def bounceRatio_def c v u n)
qed

text \<open>
  Claim C3 read with "present" as "not null" fails: a row whose \<open>user_id\<close> is the number 0
  (not null, printed as 0) and whose \<open>ip_address\<close> is 1.2.3.4 gets the key 1.2.3.4.
\<close>

theorem visitor_key_presence_counterexample:
  "user_id (anonymous_row (JNum 0) (Some ''1.2.3.4'') None) \<noteq> JNull \<and>
   String_js (user_id (anonymous_row (JNum 0) (Some ''1.2.3.4'') None)) = ''0'' \<and>
   buildVisitorId const_digest (anonymous_row (JNum 0) (Some ''1.2.3.4'') None) = ''1.2.3.4''"
  by (simp add: anonymous_row_def buildVisitorId_def show_int_def show_nat.simps)

text \<open>
  Claim C3 as amended (visitor key precedence). A field counts as present when it is truthy:
  a \<open>user_id\<close> that is neither null, nor 0, nor the empty string; an \<open>ip_address\<close> or
  \<open>user_agent\<close> that is a non-empty string. The key is the printed \<open>user_id\<close> when that is
  present; otherwise the \<open>ip_address\<close> when present; otherwise \<open>ua:\<close> followed by the first
  12 characters of the digest of \<open>user_agent\<close> when present; otherwise \<open>unknown\<close>. A row
  with \<open>user_id\<close> 42 and \<open>ip_address\<close> 1.2.3.4 gets the key 42.
\<close>

theorem visitor_key_precedence:
  "(truthy (user_id r) \<longrightarrow> buildVisitorId md5hex r = String_js (user_id r)) \<and>
   (\<not> truthy (user_id r) \<and> ip_address r = Some ip \<and> ip \<noteq> [] \<longrightarrow> buildVisitorId md5hex r = ip) \<and>
   (\<not> truthy (user_id r) \<and> \<not> truthy_str (ip_address r) \<and> user_agent r = Some ua \<and> ua \<noteq> [] \<longrightarrow>
      buildVisitorId md5hex r = ''ua:'' @ take 12 (md5hex ua)) \<and>
   (\<not> truthy (user_id r) \<and> \<not> truthy_str (ip_address r) \<and> \<not> truthy_str (user_agent r) \<longrightarrow>
      buildVisitorId md5hex r = ''unknown'') \<and>
   (user_id r = JStr ''42'' \<and> ip_address r = Some ''1.2.3.4'' \<longrightarrow> buildVisitorId md5hex r = ''42'')"
  by (simp add: buildVisitorId_def)

text \<open>
  The four branches at concrete rows.
\<close>

theorem visitor_key_precedence_witness:
  "buildVisitorId const_digest (anonymous_row (JStr ''42'') (Some ''1.2.3.4'') (Some ''Mozilla'')) = ''42'' \<and>
   buildVisitorId const_digest (anonymous_row (JNum 42) (Some ''1.2.3.4'') (Some ''Mozilla'')) = ''42'' \<and>
   buildVisitorId const_digest (anonymous_row JNull (Some ''1.2.3.4'') (Some ''Mozilla'')) = ''1.2.3.4'' \<and>
   buildVisitorId const_digest (anonymous_row JNull None (Some ''Mozilla'')) = ''ua:d41d8cd98f00'' \<and>
   buildVisitorId const_digest (anonymous_row JNull None None) = ''unknown''"
  using visitor_key_precedence [of "anonymous_row (JStr ''42'') (Some ''1.2.3.4'') (Some ''Mozilla'')" const_digest "''1.2.3.4''" "''Mozilla''"]
    visitor_key_precedence [of "anonymous_row (JNum 42) (Some ''1.2.3.4'') (Some ''Mozilla'')" const_digest "''1.2.3.4''" "''Mozilla''"]
    visitor_key_precedence [of "anonymous_row JNull (Some ''1.2.3.4'') (Some ''Mozilla'')" const_digest "''1.2.3.4''" "''Mozilla''"]
    visitor_key_precedence [of "anonymous_row JNull None (Some ''Mozilla'')" const_digest "''1.2.3.4''" "''Mozilla''"]
    visitor_key_precedence [of "anonymous_row JNull None None" const_digest "''1.2.3.4''" "''Mozilla''"]
  by (simp add: anonymous_row_def const_digest_def show_int_def show_nat.simps)

text \<open>
  Claim C9 (falsy fields fall through). A row whose \<open>user_id\<close> is the number 0 or the empty
  string and whose \<open>ip_address\<close> is a non-empty string gets the IP string as its key; a row
  without a truthy \<open>user_id\<close> whose \<open>ip_address\<close> is the empty string gets the user-agent
  key when \<open>user_agent\<close> is a non-empty string, and \<open>unknown\<close> otherwise.
\<close>

theorem falsy_fields_fall_through:
  "((user_id r = JNum 0 \<or> user_id r = JStr []) \<and> ip_address r = Some ip \<and> ip \<noteq> [] \<longrightarrow>
      buildVisitorId md5hex r = ip) \<and>
   (\<not> truthy (user_id r) \<and> ip_address r = Some [] \<longrightarrow>
      buildVisitorId md5hex r =
        (case user_agent r of
           None \<Rightarrow> ''unknown''
         | Some ua \<Rightarrow> if ua = [] then ''unknown'' else ''ua:'' @ take 12 (md5hex ua)))"
  by (auto simp: buildVisitorId_def split: option.splits)

text \<open>
  The falsy edges at concrete rows.
\<close>

theorem falsy_fields_fall_through_witness:
  "buildVisitorId const_digest (anonymous_row (JNum 0) (Some ''1.2.3.4'') None) = ''1.2.3.4'' \<and>
   buildVisitorId const_digest (anonymous_row (JStr []) (Some ''1.2.3.4'') None) = ''1.2.3.4'' \<and>
   buildVisitorId const_digest (anonymous_row JNull (Some []) (Some ''Mozilla'')) = ''ua:d41d8cd98f00'' \<and>
   buildVisitorId const_digest (anonymous_row (JNum 0) (Some []) None) = ''unknown''"
  using falsy_fields_fall_through [of "anonymous_row (JNum 0) (Some ''1.2.3.4'') None" "''1.2.3.4''" const_digest]
    falsy_fields_fall_through [of "anonymous_row (JStr []) (Some ''1.2.3.4'') None" "''1.2.3.4''" const_digest]
    falsy_fields_fall_through [of "anonymous_row JNull (Some []) (Some ''Mozilla'')" "''1.2.3.4''" const_digest]
    falsy_fields_fall_through [of "anonymous_row (JNum 0) (Some []) None" "''1.2.3.4''" const_digest]
  by (simp add: anonymous_row_def const_digest_def)

subsection \<open>One metric per event, durations in range\<close>

lemma mset_concat_Map_set_append:
  "mset (concat (map snd
     (Map_set k ((case Map_get m k of Some a \<Rightarrow> a | None \<Rightarrow> []) @ [e]) m))) =
   add_mset e (mset (concat (map snd m)))"
  by (induction m) auto

lemma mset_concat_fold_sessionsMap:
  "mset (concat (map snd (fold sessionsMap_step evs sm))) = mset (concat (map snd sm)) + mset evs"
  by (induction evs arbitrary: sm) (simp_all add: sessionsMap_step_def mset_concat_Map_set_append)

lemma mset_concat_sessionsMap: "mset (concat (map snd (sessionsMap evs))) = mset evs"
  by (simp add: sessionsMap_def mset_concat_fold_sessionsMap)

lemma truncate_session_metrics: "map event.truncate (session_metrics xs) = xs"
  by (induction xs) (simp_all add: with_duration_def event.truncate_def)

lemma truncate_eventMetrics:
  "image_mset event.truncate (mset (eventMetrics evs)) = mset evs"
proof -
  have "mset (map event.truncate (eventMetrics evs)) =
        mset (concat (map (sort_cmp by_created_ms) (map snd (sessionsMap evs))))"
    by (simp add: eventMetrics_def map_concat comp_def truncate_session_metrics)
  also have "\<dots> = mset (concat (map snd (sessionsMap evs)))"
    by (simp only: mset_concat map_map comp_def mset_sort_cmp)
  finally show ?thesis by (simp add: mset_concat_sessionsMap)
qed

lemma length_eventMetrics: "length (eventMetrics evs) = length evs"
proof -
  have "size (image_mset event.truncate (mset (eventMetrics evs))) = size (mset evs)"
    by (simp only: truncate_eventMetrics)
  then show ?thesis by simp
qed

lemma duration_session_metrics:
  "m \<in> set (session_metrics xs) \<Longrightarrow> 1 \<le> duration_seconds m \<and> duration_seconds m \<le> 1800"
proof (induction xs)
  case Nil
  then show ?case by simp
next
  case (Cons x xs)
  then show ?case
    by (cases xs) (auto simp: with_duration_def)
qed

lemma duration_eventMetrics:
  "m \<in> set (eventMetrics evs) \<Longrightarrow> 1 \<le> duration_seconds m \<and> duration_seconds m \<le> 1800"
  by (auto simp: eventMetrics_def dest: duration_session_metrics)

text \<open>
  Claim C10 (duration range). For every list of rows, the event metrics are as many as the
  rows; without their durations they are the events of the first pass, each exactly once;
  and every duration is an integer from 1 to 1800 (the value 30 of a session's last event
  included).
\<close>

theorem duration_range:
  "let ms = metrics (reconstruct md5hex viewRows pages)
   in length ms = length viewRows \<and>
      image_mset event.truncate (mset ms) = mset (events (pass1 md5hex viewRows)) \<and>
      (\<forall>m\<in>set ms. 1 \<le> duration_seconds m \<and> duration_seconds m \<le> 1800)"
  by (simp add: Let_def reconstruct_def length_eventMetrics length_events_pass1
      truncate_eventMetrics duration_eventMetrics)

text \<open>
  The durations of the five-event scenario.
\<close>

theorem duration_range_witness:
  "map duration_seconds (metrics (reconstruct const_digest scenario [])) = [100, 30, 30, 100, 30] \<and>
   length (metrics (reconstruct const_digest scenario [])) = length scenario"
proof -
  have ms: "map duration_seconds (metrics (reconstruct const_digest scenario [])) = [100, 30, 30, 100, 30]"
    by code_simp
  have n: "length scenario = 5"
    by (simp add: scenario_def)
  from duration_range [of const_digest scenario "[]"] show ?thesis
    by (simp add: Let_def ms n)
qed

subsection \<open>The session page counts\<close>

lemma counts_ok_init: "counts_ok \<lparr>visitorState = [], sessionPageCounts = [], events = []\<rparr>"
  by (simp add: counts_ok_def)

lemma counts_ok_step:
  assumes "counts_ok t"
  shows "counts_ok (pass1_step md5hex r t)"
proof -
  let ?v = "buildVisitorId md5hex r"
  let ?sid = "sessionId_of ?v
     (sessionIndex (next_state (state_of (visitorState t) ?v) (created_at r)))"
  let ?c = "(case Map_get (sessionPageCounts t) ?sid of Some c \<Rightarrow> c | None \<Rightarrow> 0) + 1"
  have spc: "sessionPageCounts (pass1_step md5hex r t) = Map_set ?sid ?c (sessionPageCounts t)"
    by (simp add: pass1_step_def Let_def state_of_def)
  have ev: "map session_id (events (pass1_step md5hex r t)) = map session_id (events t) @ [?sid]"
    by (simp add: events_pass1_step)
  have img: "session_id ` set (events (pass1_step md5hex r t)) =
             insert ?sid (session_id ` set (events t))"
    using arg_cong [OF ev, of set] by simp
  have cnt: "length (filter (\<lambda>e. session_id e = s) (events (pass1_step md5hex r t))) =
             length (filter (\<lambda>e. session_id e = s) (events t)) + (if ?sid = s then 1 else 0)" for s
    by (simp add: events_pass1_step)
  from assms have d: "distinct (map fst (sessionPageCounts t))"
    and g: "\<And>s. Map_get (sessionPageCounts t) s =
        (if s \<in> session_id ` set (events t)
         then Some (length (filter (\<lambda>e. session_id e = s) (events t))) else None)"
    by (simp_all add: counts_ok_def)
  have "Map_get (sessionPageCounts (pass1_step md5hex r t)) s =
        (if s \<in> session_id ` set (events (pass1_step md5hex r t))
         then Some (length (filter (\<lambda>e. session_id e = s) (events (pass1_step md5hex r t))))
         else None)" for s
  proof (cases "s = ?sid")
    case True
    then show ?thesis
      by (simp only: spc Map_get_Map_set img cnt g) (auto simp: filter_empty_conv image_iff)
  next
    case False
    then show ?thesis
      by (simp only: spc Map_get_Map_set img cnt g) (auto simp: image_iff)
  qed
  with d show ?thesis
    by (simp only: counts_ok_def spc distinct_Map_set) simp
qed

lemma counts_ok_fold: "counts_ok t \<Longrightarrow> counts_ok (fold (pass1_step md5hex) rows t)"
  by (induction rows arbitrary: t) (simp_all add: counts_ok_step)

lemma counts_ok_pass1: "counts_ok (pass1 md5hex rows)"
  by (simp add: pass1_def counts_ok_fold counts_ok_init)

subsection \<open>Aggregates as counts over the metrics\<close>

lemma keys_counts_ok:
  assumes "counts_ok t"
  shows "set (map fst (sessionPageCounts t)) = session_id ` set (events t)"
proof -
  have "k \<in> fst ` set (sessionPageCounts t) \<longleftrightarrow> k \<in> session_id ` set (events t)" for k
    using assms Map_get_None_iff [of "sessionPageCounts t" k]
    by (simp add: counts_ok_def split: if_splits)
  then show ?thesis by auto
qed

lemma totalSessions_card:
  assumes "counts_ok t"
  shows "totalSessions (sessionPageCounts t) = card (session_id ` set (events t))"
proof -
  from assms have "distinct (map fst (sessionPageCounts t))"
    by (simp add: counts_ok_def)
  then have "card (set (map fst (sessionPageCounts t))) = length (map fst (sessionPageCounts t))"
    by (rule distinct_card)
  with keys_counts_ok [OF assms] show ?thesis
    by (simp add: totalSessions_def)
qed

lemma singlePageSessions_card:
  assumes "counts_ok t"
  shows "singlePageSessions (sessionPageCounts t) =
         card {s \<in> session_id ` set (events t).
                 length (filter (\<lambda>e. session_id e = s) (events t)) = 1}"
proof -
  let ?m = "sessionPageCounts t"
  let ?one = "filter (\<lambda>p. snd p = 1) ?m"
  from assms have d: "distinct (map fst ?m)"
    by (simp add: counts_ok_def)
  have "singlePageSessions ?m = length (map fst ?one)"
    by (simp add: singlePageSessions_def filter_map comp_def)
  also have "\<dots> = card (set (map fst ?one))"
    using distinct_card [OF distinct_map_filter [OF d, of "\<lambda>p. snd p = 1"]] by simp
  also have "set (map fst ?one) = {s. Map_get ?m s = Some 1}"
    using Map_get_in_set [OF d] by force
  also have "\<dots> = {s \<in> session_id ` set (events t).
                      length (filter (\<lambda>e. session_id e = s) (events t)) = 1}"
    using assms by (auto simp: counts_ok_def split: if_splits)
  finally show ?thesis .
qed

lemma image_eventMetrics:
  assumes "\<And>m. f (event.truncate m) = g m"
  shows "image_mset g (mset (eventMetrics evs)) = image_mset f (mset evs)"
proof -
  have "image_mset f (image_mset event.truncate (mset (eventMetrics evs))) =
        image_mset g (mset (eventMetrics evs))"
    by (simp add: multiset.map_comp comp_def assms)
  then show ?thesis by (simp only: truncate_eventMetrics)
qed

lemma session_ids_eventMetrics:
  "session_id ` set (eventMetrics evs) = session_id ` set evs"
proof -
  have "image_mset session_id (mset (eventMetrics evs)) = image_mset session_id (mset evs)"
    by (rule image_eventMetrics) (simp add: event.truncate_def)
  from arg_cong [OF this, of set_mset] show ?thesis by simp
qed

lemma resource_ids_eventMetrics:
  "event.resource_id ` set (eventMetrics evs) = event.resource_id ` set evs"
proof -
  have "image_mset event.resource_id (mset (eventMetrics evs)) =
        image_mset event.resource_id (mset evs)"
    by (rule image_eventMetrics) (simp add: event.truncate_def)
  from arg_cong [OF this, of set_mset] show ?thesis by simp
qed

lemma session_size_eventMetrics:
  "length (filter (\<lambda>m. session_id m = s) (eventMetrics evs)) =
   length (filter (\<lambda>e. session_id e = s) evs)"
  by (simp only: filter_eventMetrics length_session_metrics length_sort_cmp)

lemma fold_add_sum_list:
  "fold (\<lambda>e sum. sum + f e) xs (a :: int) = a + sum_list (map f xs)"
  by (induction xs arbitrary: a) simp_all

lemma fold_Set_add:
  "distinct acc \<Longrightarrow>
   distinct (fold Set_add xs acc) \<and> set (fold Set_add xs acc) = set acc \<union> set xs"
  by (induction xs arbitrary: acc) (auto simp: Set_add_def)

lemma length_Set_of: "length (Set_of xs) = card (set xs)"
  using fold_Set_add [of "[]" xs] distinct_card [of "Set_of xs"]
  by (simp add: Set_of_def)

lemma uniqueVisitors_card: "uniqueVisitors ems = card (visitor_id ` set ems)"
  by (simp add: uniqueVisitors_def length_Set_of)

subsection \<open>Zero-guarded aggregates\<close>

lemma Math_round_0: "Math_round 0 = 0"
  by (simp add: Math_round_def floor_eq_iff)

lemma page_detail_of_absent:
  "Map_get pa (id_page p) = None \<Longrightarrow>
   page_detail_of pa p =
     \<lparr>title = page.title p, views = 0, unique_visitors = 0, avg_time = 0, bounce_rate = 0,
      updated_at = page.updated_at p\<rparr>"
  by (simp add: page_detail_of_def Math_round_0)

lemma set_pageDetails: "set (pageDetails pa pages) \<subseteq> page_detail_of pa ` set pages"
proof -
  have "set (pageDetails pa pages) \<subseteq> set (sort_cmp compare_details (map (page_detail_of pa) pages))"
    by (simp add: pageDetails_def set_take_subset)
  then show ?thesis by (simp add: set_sort_cmp)
qed

lemma reconstruct_empty:
  "reconstruct md5hex [] pages =
     \<lparr>summary = \<lparr>total_sessions = 0, total_page_views = 0, unique_visitors = 0,
                  avg_duration_seconds = 0, bounce_ratio = 0\<rparr>,
      details = pageDetails [] pages, metrics = [], counts = []\<rparr>"
  by (simp add: reconstruct_def pass1_def eventMetrics_def sessionsMap_def pageAgg_def
      engagementSummary_def totalSessions_def totalPageViews_def uniqueVisitors_def
      avgDurationSeconds_def bounceRatio_def Set_of_def)

text \<open>
  Claim C5 (zero-guarded aggregates). With the sessions read off the event metrics, the
  bounce ratio is the number of sessions with exactly one page view divided by the number of
  distinct sessions, and the average duration is the sum of all durations divided by the
  number of event metrics; each is 0 when its divisor is 0. The model has no error value:
  the computation returns on every input. When there are no rows, all five aggregates are 0,
  the event metrics and the session page counts are empty, and the page details hold only
  all-zero entries (none when the catalog is empty as well).
\<close>

theorem zero_guarded_aggregates:
  "let r = reconstruct md5hex viewRows pages;
       ms = metrics r;
       S = session_id ` set ms;
       single = {s \<in> S. length (filter (\<lambda>m. session_id m = s) ms) = 1}
   in total_sessions (summary r) = card S \<and>
      total_page_views (summary r) = length ms \<and>
      engagement_summary.unique_visitors (summary r) = card (visitor_id ` set ms) \<and>
      bounce_ratio (summary r) =
        (if card S = 0 then 0 else of_nat (card single) / of_nat (card S)) \<and>
      avg_duration_seconds (summary r) =
        (if length ms = 0 then 0
         else of_int (sum_list (map duration_seconds ms)) / of_nat (length ms)) \<and>
      (viewRows = [] \<longrightarrow>
         summary r =
           \<lparr>total_sessions = 0, total_page_views = 0, unique_visitors = 0,
            avg_duration_seconds = 0, bounce_ratio = 0\<rparr> \<and>
         ms = [] \<and> counts r = [] \<and>
         (\<forall>d\<in>set (details r).
            views d = 0 \<and> unique_visitors d = 0 \<and> avg_time d = 0 \<and> bounce_rate d = 0) \<and>
         (pages = [] \<longrightarrow> details r = []))"
proof -
  let ?t = "pass1 md5hex viewRows"
  let ?ms = "eventMetrics (events ?t)"
  let ?S = "session_id ` set ?ms"
  let ?single = "{s \<in> ?S. length (filter (\<lambda>m. session_id m = s) ?ms) = 1}"
  have ok: "counts_ok ?t" by (rule counts_ok_pass1)
  have S: "?S = session_id ` set (events ?t)"
    by (rule session_ids_eventMetrics)
  have single: "?single = {s \<in> session_id ` set (events ?t).
                             length (filter (\<lambda>e. session_id e = s) (events ?t)) = 1}"
    by (simp only: S session_size_eventMetrics)
  have total: "totalSessions (sessionPageCounts ?t) = card ?S"
    by (simp only: S totalSessions_card [OF ok])
  have one: "singlePageSessions (sessionPageCounts ?t) = card ?single"
    by (simp only: single singlePageSessions_card [OF ok])
  have bounce: "bounceRatio (sessionPageCounts ?t) =
                  (if card ?S = 0 then 0 else of_nat (card ?single) / of_nat (card ?S))"
    by (simp add: bounceRatio_def total one)
  have avg: "avgDurationSeconds ?ms =
               (if length ?ms = 0 then 0
                else of_int (sum_list (map duration_seconds ?ms)) / of_nat (length ?ms))"
    by (simp add: avgDurationSeconds_def totalPageViews_def fold_add_sum_list)
  have zero: "views d = 0 \<and> unique_visitors d = 0 \<and> avg_time d = 0 \<and> bounce_rate d = 0"
    if "d \<in> set (pageDetails [] pages)" for d
  proof -
    from that set_pageDetails [of "[]" pages] obtain p where "d = page_detail_of [] p"
      by auto
    then show ?thesis by (simp add: page_detail_of_absent)
  qed
  have empty: "pageDetails pa [] = []" for pa
    by (simp add: pageDetails_def sort_cmp_def)
  have general: "total_sessions (summary (reconstruct md5hex viewRows pages)) = card ?S \<and>
      total_page_views (summary (reconstruct md5hex viewRows pages)) = length ?ms \<and>
      engagement_summary.unique_visitors (summary (reconstruct md5hex viewRows pages)) =
        card (visitor_id ` set ?ms) \<and>
      bounce_ratio (summary (reconstruct md5hex viewRows pages)) =
        (if card ?S = 0 then 0 else of_nat (card ?single) / of_nat (card ?S)) \<and>
      avg_duration_seconds (summary (reconstruct md5hex viewRows pages)) =
        (if length ?ms = 0 then 0
         else of_int (sum_list (map duration_seconds ?ms)) / of_nat (length ?ms))"
    by (simp only: reconstruct_def Let_def engagementSummary_def analytics.simps
        engagement_summary.simps total bounce avg totalPageViews_def uniqueVisitors_card)
  have m: "metrics (reconstruct md5hex viewRows pages) = ?ms"
    by (simp add: reconstruct_def Let_def)
  show ?thesis
    unfolding Let_def m
    using general zero empty by (auto simp: reconstruct_empty)
qed

text \<open>
  The aggregates of the five-event scenario and of an empty input.
\<close>

theorem zero_guarded_aggregates_witness:
  "bounce_ratio (summary (reconstruct const_digest scenario [])) = 1 / 3 \<and>
   avg_duration_seconds (summary (reconstruct const_digest scenario [])) = 58 \<and>
   summary (reconstruct const_digest [] [sample_page]) =
     \<lparr>total_sessions = 0, total_page_views = 0, unique_visitors = 0,
      avg_duration_seconds = 0, bounce_ratio = 0\<rparr> \<and>
   details (reconstruct const_digest [] [sample_page]) =
     [\<lparr>title = ''Home'', views = 0, unique_visitors = 0, avg_time = 0, bounce_rate = 0,
       updated_at = 1000\<rparr>] \<and>
   details (reconstruct const_digest [] []) = []"
proof -
  have s: "summary (reconstruct const_digest scenario []) =
             \<lparr>total_sessions = 3, total_page_views = 5, unique_visitors = 2,
              avg_duration_seconds = 58, bounce_ratio = 1 / 3\<rparr>"
    by code_simp
  have d: "details (reconstruct const_digest [] [sample_page]) =
            [\<lparr>title = ''Home'', views = 0, unique_visitors = 0, avg_time = 0, bounce_rate = 0,
              updated_at = 1000\<rparr>]"
    by (simp add: reconstruct_empty pageDetails_def sort_cmp_def sample_page_def
        page_detail_of_absent)
  from zero_guarded_aggregates [of const_digest "[]" "[sample_page]"]
    zero_guarded_aggregates [of const_digest "[]" "[]"]
    zero_guarded_aggregates [of const_digest scenario "[]"]
  show ?thesis
    by (simp add: Let_def s d)
qed

subsection \<open>Page details\<close>

lemma keys_set_Map_set: "fst ` set (Map_set k v m) = insert k (fst ` set m)"
  using arg_cong [OF keys_Map_set, of set k v m] by auto

lemma keys_fold_pageAgg:
  "fst ` set (fold (pageAgg_step spc) ems pa) = fst ` set pa \<union> event.resource_id ` set ems"
  by (induction ems arbitrary: pa) (auto simp: pageAgg_step_def Let_def keys_set_Map_set)

lemma keys_pageAgg: "fst ` set (pageAgg spc ems) = event.resource_id ` set ems"
  by (simp add: pageAgg_def keys_fold_pageAgg)

lemma resource_ids_fold_pass1:
  "map event.resource_id (events (fold (pass1_step md5hex) rows t)) =
   map event.resource_id (events t) @ map row.resource_id rows"
  by (induction rows arbitrary: t) (simp_all add: events_pass1_step)

lemma resource_ids_pass1:
  "event.resource_id ` set (events (pass1 md5hex rows)) = row.resource_id ` set rows"
  using arg_cong [OF resource_ids_fold_pass1, of set md5hex rows
      "\<lparr>visitorState = [], sessionPageCounts = [], events = []\<rparr>"]
  by (simp add: pass1_def)

lemma compare_details_le: "compare_details a b \<le> 0 \<longleftrightarrow> ranks_before a b"
  by (auto simp: compare_details_def ranks_before_def)

lemma sorted_compare_details: "sorted_wrt ranks_before (sort_cmp compare_details ds)"
proof -
  have "sorted_wrt (\<lambda>a b. compare_details a b \<le> 0) (sort_cmp compare_details ds)"
    by (rule sorted_sort_cmp) (auto simp: compare_details_le ranks_before_def)
  then show ?thesis by (simp add: compare_details_le)
qed

lemma sorted_wrt_take: "sorted_wrt P xs \<Longrightarrow> sorted_wrt P (take n xs)"
  by (metis append_take_drop_id sorted_wrt_append)

text \<open>
  Claim C6 as stated fails once the catalog has more than 20 pages: with 21 pages and no
  events at all, the page updated least recently matches no event, yet its all-zero entry is
  not in the page details, which keep the first 20 entries of the sorted list only.
\<close>

theorem zero_traffic_pages_counterexample:
  "numbered_page 1 \<in> set catalog21 \<and>
   id_page (numbered_page 1) \<notin> row.resource_id ` set ([] :: row list) \<and>
   \<lparr>title = page.title (numbered_page 1), views = 0, unique_visitors = 0, avg_time = 0,
    bounce_rate = 0, updated_at = page.updated_at (numbered_page 1)\<rparr>
     \<notin> set (details (reconstruct const_digest [] catalog21))"
proof -
  have "map page_detail.updated_at (details (reconstruct const_digest [] catalog21)) =
        [21, 20, 19, 18, 17, 16, 15, 14, 13, 12, 11, 10, 9, 8, 7, 6, 5, 4, 3, 2]"
    by code_simp
  then have "1 \<notin> page_detail.updated_at ` set (details (reconstruct const_digest [] catalog21))"
    by (simp only: set_map [symmetric]) simp
  then have "\<lparr>title = page.title (numbered_page 1), views = 0, unique_visitors = 0, avg_time = 0,
    bounce_rate = 0, updated_at = 1\<rparr> \<notin> set (details (reconstruct const_digest [] catalog21))"
    by force
  then show ?thesis
    by (simp add: catalog21_def numbered_page_def)
qed

text \<open>
  Claim C6 as amended (zero-traffic pages). A catalog page whose id is the resource id of no
  row gets the entry with its title and update time and with views, unique visitors, average
  time and bounce rate all 0; that entry is in the sorted list of all page details, of which
  the returned page details are the first 20 entries; so it is returned whenever the catalog
  has at most 20 pages.
\<close>

theorem zero_traffic_pages:
  "p \<in> set pages \<and> id_page p \<notin> row.resource_id ` set viewRows \<longrightarrow>
     (let z = \<lparr>title = page.title p, views = 0, unique_visitors = 0, avg_time = 0,
               bounce_rate = 0, updated_at = page.updated_at p\<rparr>;
          pa = pageAgg (sessionPageCounts (pass1 md5hex viewRows))
                 (eventMetrics (events (pass1 md5hex viewRows)));
          full = sort_cmp compare_details (map (page_detail_of pa) pages)
      in page_detail_of pa p = z \<and> z \<in> set full \<and>
         details (reconstruct md5hex viewRows pages) = take 20 full \<and>
         (length pages \<le> 20 \<longrightarrow> z \<in> set (details (reconstruct md5hex viewRows pages))))"
proof -
  let ?pa = "pageAgg (sessionPageCounts (pass1 md5hex viewRows))
               (eventMetrics (events (pass1 md5hex viewRows)))"
  let ?full = "sort_cmp compare_details (map (page_detail_of ?pa) pages)"
  let ?z = "\<lparr>title = page.title p, views = 0, unique_visitors = 0, avg_time = 0,
             bounce_rate = 0, updated_at = page.updated_at p\<rparr>"
  have d: "details (reconstruct md5hex viewRows pages) = take 20 ?full"
    by (simp add: reconstruct_def Let_def pageDetails_def)
  have "length ?full = length pages"
    by (simp add: length_sort_cmp)
  then have short: "length pages \<le> 20 \<longrightarrow> take 20 ?full = ?full"
    by simp
  have keys: "fst ` set ?pa = row.resource_id ` set viewRows"
    by (simp only: keys_pageAgg resource_ids_eventMetrics resource_ids_pass1)
  have main: "page_detail_of ?pa p = ?z \<and> ?z \<in> set ?full"
    if a: "p \<in> set pages \<and> id_page p \<notin> row.resource_id ` set viewRows"
  proof -
    from a keys have "Map_get ?pa (id_page p) = None"
      by (simp add: Map_get_None_iff)
    then have z: "page_detail_of ?pa p = ?z"
      by (rule page_detail_of_absent)
    from a have "page_detail_of ?pa p \<in> set ?full"
      by (simp add: set_sort_cmp)
    with z show ?thesis by simp
  qed
  show ?thesis
    unfolding Let_def using main d short by auto
qed

text \<open>
  Two pages without traffic in a catalog of four.
\<close>

theorem zero_traffic_pages_witness:
  "map page_detail.title (details (reconstruct const_digest scenario sample_catalog)) =
     [''A'', ''B'', ''New'', ''Old''] \<and>
   \<lparr>title = ''Old'', views = 0, unique_visitors = 0, avg_time = 0, bounce_rate = 0,
    updated_at = 1\<rparr> \<in> set (details (reconstruct const_digest scenario sample_catalog))"
proof -
  let ?p = "\<lparr>id_page = JStr ''zz'', title = ''Old'', updated_at = 1\<rparr>"
  have t: "map page_detail.title (details (reconstruct const_digest scenario sample_catalog)) =
             [''A'', ''B'', ''New'', ''Old'']"
    by code_simp
  have a: "?p \<in> set sample_catalog"
    by (simp add: sample_catalog_def)
  have b: "id_page ?p \<notin> row.resource_id ` set scenario"
    by (simp add: scenario_def view_row_def)
  have c: "length sample_catalog \<le> 20"
    by (simp add: sample_catalog_def)
  from zero_traffic_pages [of ?p sample_catalog scenario const_digest] a b c
  have "\<lparr>title = page.title ?p, views = 0, unique_visitors = 0, avg_time = 0, bounce_rate = 0,
         updated_at = page.updated_at ?p\<rparr>
          \<in> set (details (reconstruct const_digest scenario sample_catalog))"
    unfolding Let_def by blast
  with t show ?thesis
    by simp
qed

text \<open>
  Claim C7 (ordering and truncation of the page details). The page details are the first 20
  entries (all of them when there are fewer) of a list that holds the entry of every catalog
  page exactly once and is ordered by views descending, entries with equal views by the
  page's update time descending; the returned list is ordered in the same way.
\<close>

theorem page_details_order:
  "let pa = pageAgg (sessionPageCounts (pass1 md5hex viewRows))
              (eventMetrics (events (pass1 md5hex viewRows)));
       full = sort_cmp compare_details (map (page_detail_of pa) pages);
       ds = details (reconstruct md5hex viewRows pages)
   in mset full = image_mset (page_detail_of pa) (mset pages) \<and>
      sorted_wrt ranks_before full \<and>
      ds = take 20 full \<and>
      length ds = min 20 (length pages) \<and>
      sorted_wrt ranks_before ds"
  by (simp add: Let_def reconstruct_def pageDetails_def mset_sort_cmp sorted_compare_details
      sorted_wrt_take length_sort_cmp)

text \<open>
  Four pages: by views first, the two pages without views by update time.
\<close>

theorem page_details_order_witness:
  "map (\<lambda>d. (page_detail.title d, views d, page_detail.updated_at d))
     (details (reconstruct const_digest scenario sample_catalog)) =
     [(''A'', 4, 2), (''B'', 1, 5), (''New'', 0, 9), (''Old'', 0, 1)]"
proof -
  have t: "map (\<lambda>d. (page_detail.title d, views d, page_detail.updated_at d))
     (details (reconstruct const_digest scenario sample_catalog)) =
     [(''A'', 4, 2), (''B'', 1, 5), (''New'', 0, 9), (''Old'', 0, 1)]"
    by code_simp
  from page_details_order [of const_digest scenario sample_catalog] t
  show ?thesis
    by (simp add: Let_def)
qed

end
